theory Spec2Isabelle
  imports Main "HOL-Library.Char_ord" "HOL-Library.List_Lexorder"
    "HOL-Library.Multiset"
begin

section \<open>Strings and character classes\<close>


definition isDigit :: "char \<Rightarrow> bool" where
  "isDigit c = (c \<in> set ''0123456789'')"

definition isIdentStart :: "char \<Rightarrow> bool" where
  "isIdentStart c = (c \<in> set ''abcdefghijklmnopqrstuvwxyzABCDEFGHIJKLMNOPQRSTUVWXYZ_'')"

definition isWordChar :: "char \<Rightarrow> bool" where
  "isWordChar c = (isIdentStart c \<or> isDigit c)"


text \<open>\<^verbatim>\<open>s.split(d)\<close> for a one-character separator: the empty string gives one empty piece.\<close>

fun splitOn :: "char \<Rightarrow> string \<Rightarrow> string list" where
  "splitOn d [] = [[]]"
| "splitOn d (c # cs) =
     (if c = d then [] # splitOn d cs
      else (case splitOn d cs of p # ps \<Rightarrow> (c # p) # ps | [] \<Rightarrow> [[c]]))"


text \<open>
  \<^verbatim>\<open>xs.sort(cmp)\<close> with a comparison function: the sort is stable, so for a consistent
  comparison its result is the one of a stable insertion sort. A comparison that returns
  a negative number or zero leaves the first argument in front.
\<close>

fun insertBy :: "('a \<Rightarrow> 'a \<Rightarrow> int) \<Rightarrow> 'a \<Rightarrow> 'a list \<Rightarrow> 'a list" where
  "insertBy cmp x [] = [x]"
| "insertBy cmp x (y # ys) = (if cmp x y \<le> 0 then x # y # ys else y # insertBy cmp x ys)"

definition sortBy :: "('a \<Rightarrow> 'a \<Rightarrow> int) \<Rightarrow> 'a list \<Rightarrow> 'a list" where
  "sortBy cmp xs = foldr (insertBy cmp) xs []"

text \<open>
  \<^verbatim>\<open>xs.forEach(x => { if (!ys.includes(x)) ys.push(x) })\<close>: the elements of \<open>xs\<close> that
  \<open>ys\<close> does not hold yet are appended to \<open>ys\<close>, in order.
\<close>

definition pushNew :: "'a list \<Rightarrow> 'a list \<Rightarrow> 'a list" where
  "pushNew xs ys = fold (\<lambda>x acc. if x \<in> set acc then acc else acc @ [x]) xs ys"

section \<open>Version Catalog: the version order\<close>

text \<open>
  \<^verbatim>\<open>Number(s)\<close> on a piece of a version tag. A non-empty run of decimal digits reads as its
  value; the value is exact as long as it is below \<open>2^53\<close>. Every other string (the
  empty one, signs, exponents, hexadecimal, \<^verbatim>\<open>NaN\<close>) and every larger value is outside the
  fragment modelled here and gives \<open>None\<close>.
\<close>

definition digitValue :: "char \<Rightarrow> int" where
  "digitValue c = of_char c - 48"

definition decimal :: "string \<Rightarrow> int" where
  "decimal s = foldl (\<lambda>n c. 10 * n + digitValue c) 0 s"

definition Number :: "string \<Rightarrow> int option" where
  "Number s =
     (if s \<noteq> [] \<and> list_all isDigit s \<and> decimal s < 2 ^ 53 then Some (decimal s) else None)"

text \<open>\<^verbatim>\<open>v.replace("v", "").split(".").map(Number)\<close>: the first \<^verbatim>\<open>v\<close> is removed.\<close>

definition parseVersion :: "string \<Rightarrow> int option list" where
  "parseVersion v = map Number (splitOn (CHR ''.'') (remove1 (CHR ''v'') v))"

text \<open>
  \<^verbatim>\<open>compareVersions(a, b)\<close>. The result is \<open>None\<close> when one of the first three components
  of a tag is missing or is outside the fragment of \<^const>\<open>Number\<close>.
\<close>

definition compareVersions :: "string \<Rightarrow> string \<Rightarrow> int option" where
  "compareVersions a b =
     (if a = ''main'' \<and> b = ''main'' then Some 0
      else if a = ''main'' then Some 1
      else if b = ''main'' then Some (- 1)
      else (case (parseVersion a, parseVersion b) of
              (Some aMajor # Some aMinor # Some aPatch # _,
               Some bMajor # Some bMinor # Some bPatch # _) \<Rightarrow>
                 Some (if aMajor \<noteq> bMajor then aMajor - bMajor
                       else if aMinor \<noteq> bMinor then aMinor - bMinor
                       else aPatch - bPatch)
            | _ \<Rightarrow> None))"




definition versionLess :: "string \<Rightarrow> string \<Rightarrow> bool" where
  "versionLess a b = (case compareVersions a b of Some r \<Rightarrow> r < 0 | None \<Rightarrow> False)"


section \<open>Data model\<close>

datatype hookType = PluginOutlet | ValueTransformer | AppEventTrigger | BehaviorTransformer

fun typeString :: "hookType \<Rightarrow> string" where
  "typeString PluginOutlet = ''plugin_outlet''"
| "typeString ValueTransformer = ''value_transformer''"
| "typeString AppEventTrigger = ''app_event_trigger''"
| "typeString BehaviorTransformer = ''behavior_transformer''"

text \<open>
  A hook occurrence as \<^verbatim>\<open>findHooks\<close> pushes it: \<^verbatim>\<open>{name, type, file, lines, arguments}\<close>.
  The single-line scan sets no \<^verbatim>\<open>arguments\<close> field (\<open>None\<close>); \<^verbatim>\<open>lines\<close> is always set.
  The worker adds \<^verbatim>\<open>version\<close>.
\<close>

record hook =
  hookName :: string
  hookType :: hookType
  hookFile :: string
  hookLines :: "nat list"
  hookArguments :: "string list option"

record vhook = hook +
  hookVersion :: string

text \<open>\<^verbatim>\<open>hook.arguments || []\<close>\<close>

definition argsOrEmpty :: "string list option \<Rightarrow> string list" where
  "argsOrEmpty a = (case a of None \<Rightarrow> [] | Some xs \<Rightarrow> xs)"

record location =
  version :: string
  filePath :: string
  lines :: "nat list"
  arguments :: "string list"

text \<open>
  An entry of \<^verbatim>\<open>argumentHistory\<close>: \<^verbatim>\<open>{arguments, firstSeenVersion, versions}\<close>. The merge
  stores in \<^verbatim>\<open>arguments\<close> the very array of the occurrence; when the same occurrence has
  created a location, the location holds that array too and later pushes into the
  location's arguments show through the entry. The entry therefore holds either an array
  of its own or a reference to the location (version, file) it shares its array with.
\<close>

datatype argsRef = Own "string list" | SharedWithLocation string string

record entryBase =
  firstSeenVersion :: string
  versions :: "string list"

record historyEntry = entryBase +
  entryArguments :: argsRef

text \<open>
  The value of the master map \<^verbatim>\<open>hooksDb\<close>. \<^verbatim>\<open>argumentHistory\<close> is a \<^verbatim>\<open>Map\<close> keyed by
  \<^verbatim>\<open>JSON.stringify\<close> of an array of strings, which is injective on such arrays: the key is
  modelled by the array itself. A \<^verbatim>\<open>Map\<close> iterates in insertion order, so it is an
  association list with distinct keys, new keys at the end. The report replaces the
  history by an array, hence the type parameter.
\<close>

record 'h hookRecord =
  name :: string
  type :: hookType
  firstVersion :: string
  locations :: "location list"
  argumentHistory :: 'h

type_synonym hookData = "(string list \<times> historyEntry) list hookRecord"

type_synonym hooksDb = "(string \<times> hookData) list"

text \<open>\<^verbatim>\<open>m.get(k).field = ...\<close>: the object stored under \<open>k\<close> is changed in place.\<close>

definition mapEntry :: "'k \<Rightarrow> ('v \<Rightarrow> 'v) \<Rightarrow> ('k \<times> 'v) list \<Rightarrow> ('k \<times> 'v) list" where
  "mapEntry k f al = map (\<lambda>(k', v). if k' = k then (k', f v) else (k', v)) al"

text \<open>The first element that satisfies \<open>P\<close> (the one \<^verbatim>\<open>find\<close> returns) is changed in place.\<close>

fun updateFirst :: "('a \<Rightarrow> bool) \<Rightarrow> ('a \<Rightarrow> 'a) \<Rightarrow> 'a list \<Rightarrow> 'a list" where
  "updateFirst P f [] = []"
| "updateFirst P f (x # xs) = (if P x then f x # xs else x # updateFirst P f xs)"

section \<open>Argument Consolidator\<close>

definition reservedTokens :: "string list" where
  "reservedTokens = [''string'', ''number'', ''boolean'', ''null'', ''array'', ''object'', ''this'']"

text \<open>\<^verbatim>\<open>/^[a-zA-Z_][a-zA-Z0-9_]*$/.test(arg) && ![...].includes(arg)\<close>\<close>

definition isPlainVariableName :: "string \<Rightarrow> bool" where
  "isPlainVariableName arg =
     ((case arg of [] \<Rightarrow> False | c # cs \<Rightarrow> isIdentStart c \<and> list_all isWordChar cs)
      \<and> arg \<notin> set reservedTokens)"

text \<open>
  \<^verbatim>\<open>/\.([a-zA-Z_][a-zA-Z0-9_]*)\(\)/\<close> tried at the head of a string. The starred class is
  greedy and the character that must follow it, \<^verbatim>\<open>(\<close>, is outside the class, so giving
  characters back never helps: the name is the longest run.
\<close>

definition methodMatchAt :: "string \<Rightarrow> string option" where
  "methodMatchAt s =
     (case s of
        d # c # rest \<Rightarrow>
          if d = CHR ''.'' \<and> isIdentStart c
             \<and> take 2 (dropWhile isWordChar rest) = ''()''
          then Some (c # takeWhile isWordChar rest) else None
      | _ \<Rightarrow> None)"

text \<open>\<^verbatim>\<open>/\.([a-zA-Z_][a-zA-Z0-9_]*)$/\<close> tried at the head of a string: the name runs to the end.\<close>

definition memberMatchAt :: "string \<Rightarrow> string option" where
  "memberMatchAt s =
     (case s of
        d # c # rest \<Rightarrow>
          if d = CHR ''.'' \<and> isIdentStart c \<and> list_all isWordChar rest
          then Some (c # rest) else None
      | _ \<Rightarrow> None)"

text \<open>An unanchored \<^verbatim>\<open>match\<close>: the leftmost position where the expression matches.\<close>

fun firstMatch :: "(string \<Rightarrow> 'a option) \<Rightarrow> string \<Rightarrow> 'a option" where
  "firstMatch m [] = m []"
| "firstMatch m (c # cs) =
     (case m (c # cs) of Some r \<Rightarrow> Some r | None \<Rightarrow> firstMatch m cs)"

definition extractMethodOrMemberName :: "string \<Rightarrow> string option" where
  "extractMethodOrMemberName arg =
     (case firstMatch methodMatchAt arg of
        Some methodName \<Rightarrow> Some methodName
      | None \<Rightarrow> firstMatch memberMatchAt arg)"

text \<open>The two loops of \<^verbatim>\<open>chooseBestArgumentName\<close>; \<^verbatim>\<open>if (extracted)\<close> also skips an empty name.\<close>

fun firstPlainName :: "string list \<Rightarrow> string option" where
  "firstPlainName [] = None"
| "firstPlainName (arg # rest) = (if isPlainVariableName arg then Some arg else firstPlainName rest)"

fun firstExtractedName :: "string list \<Rightarrow> string option" where
  "firstExtractedName [] = None"
| "firstExtractedName (arg # rest) =
     (case extractMethodOrMemberName arg of
        Some extracted \<Rightarrow> if extracted \<noteq> [] then Some extracted else firstExtractedName rest
      | None \<Rightarrow> firstExtractedName rest)"

definition chooseBestArgumentName :: "string list \<Rightarrow> string" where
  "chooseBestArgumentName argumentGroup =
     (case firstPlainName argumentGroup of
        Some arg \<Rightarrow> arg
      | None \<Rightarrow>
          (case firstExtractedName argumentGroup of
             Some extracted \<Rightarrow> extracted
           | None \<Rightarrow> ''value''))"

text \<open>The \<^verbatim>\<open>for\<close> loop over the positions, \<open>consolidatedArgs\<close> being the array pushed to.\<close>

function consolidatePositions ::
  "string list list \<Rightarrow> nat \<Rightarrow> nat \<Rightarrow> string list \<Rightarrow> string list" where
  "consolidatePositions allArgumentArrays maxArgLength i consolidatedArgs =
     (if i < maxArgLength
      then consolidatePositions allArgumentArrays maxArgLength (i + 1)
             (consolidatedArgs @
              [chooseBestArgumentName
                 (map (\<lambda>args. args ! i) (filter (\<lambda>args. i < length args) allArgumentArrays))])
      else consolidatedArgs)"
  by pat_completeness auto
termination
  by (relation "measure (\<lambda>(a, m, i, c). m - i)") auto

text \<open>
  \<^verbatim>\<open>consolidateArgumentsForVersion\<close>. \<^verbatim>\<open>Math.max(...)\<close> is taken over a non-empty list of
  lengths here, so folding \<^const>\<open>max\<close> from 0 gives it.
\<close>

definition consolidateArgumentsForVersion :: "'h hookRecord \<Rightarrow> string \<Rightarrow> string list" where
  "consolidateArgumentsForVersion hookData v =
     (let allArgumentArrays =
            fold (\<lambda>loc acc. if arguments loc \<noteq> [] then acc @ [arguments loc] else acc)
                 (filter (\<lambda>loc. version loc = v) (locations hookData)) []
      in if allArgumentArrays = [] then []
         else consolidatePositions allArgumentArrays
                (fold max (map length allArgumentArrays) 0) 0 [])"

text \<open>
  \<^verbatim>\<open>consolidateArgumentHistory\<close>, for one hook. \<open>allVersions\<close> is a \<^verbatim>\<open>Set\<close>, which iterates
  in insertion order.
\<close>

definition consolidateStep ::
  "hookData \<Rightarrow> string \<Rightarrow> (string list \<times> historyEntry) list \<Rightarrow> (string list \<times> historyEntry) list" where
  "consolidateStep hookData v consolidatedHistory =
     (let consolidatedArgs = consolidateArgumentsForVersion hookData v;
          argKey = consolidatedArgs;
          h1 = (if map_of consolidatedHistory argKey = None
                then consolidatedHistory @
                       [(argKey, \<lparr>firstSeenVersion = v, versions = [],
                                 entryArguments = Own consolidatedArgs\<rparr>)]
                else consolidatedHistory)
      in mapEntry argKey (\<lambda>e. if v \<in> set (versions e) then e
                               else e\<lparr>versions := versions e @ [v]\<rparr>) h1)"

definition consolidateHook :: "hookData \<Rightarrow> hookData" where
  "consolidateHook hookData =
     (if type hookData \<noteq> ValueTransformer \<and> type hookData \<noteq> AppEventTrigger then hookData
      else
        (let allVersions = pushNew (concat (map (\<lambda>(k, history). versions history)
                                               (argumentHistory hookData))) []
         in hookData\<lparr>argumentHistory := fold (consolidateStep hookData) allVersions []\<rparr>))"

definition consolidateArgumentHistory :: "hooksDb \<Rightarrow> hooksDb" where
  "consolidateArgumentHistory db = map (\<lambda>(k, hookData). (k, consolidateHook hookData)) db"

section \<open>Cross-Version Merger\<close>

text \<open>The body of the merge loop of \<^verbatim>\<open>run\<close> once the hook's record is at hand.\<close>

definition mergeInto :: "hookData \<Rightarrow> vhook \<Rightarrow> hookData" where
  "mergeInto hookData hook =
     (let args = argsOrEmpty (hookArguments hook);
          here = (\<lambda>loc. version loc = hookVersion hook \<and> filePath loc = hookFile hook);
          found = find here (locations hookData);
          locs =
            (case found of
               None \<Rightarrow>
                 locations hookData @
                   [\<lparr>version = hookVersion hook, filePath = hookFile hook,
                     lines = hookLines hook, arguments = args\<rparr>]
             | Some _ \<Rightarrow>
                 updateFirst here
                   (\<lambda>locationEntry.
                      locationEntry
                        \<lparr>lines := sort (pushNew (hookLines hook) (lines locationEntry)),
                         arguments :=
                           (if hookType hook = ValueTransformer \<or> hookType hook = AppEventTrigger
                            then sort (pushNew args (arguments locationEntry))
                            else arguments locationEntry)\<rparr>)
                   (locations hookData));
          argKey = args;
          h0 = argumentHistory hookData;
          h1 = (if map_of h0 argKey = None
                then h0 @
                       [(argKey,
                         \<lparr>firstSeenVersion = hookVersion hook, versions = [],
                           entryArguments =
                             (if found = None \<and> hookArguments hook \<noteq> None
                              then SharedWithLocation (hookVersion hook) (hookFile hook)
                              else Own args)\<rparr>)]
                else h0);
          h2 = mapEntry argKey (\<lambda>e. e\<lparr>versions := versions e @ [hookVersion hook]\<rparr>) h1
      in hookData\<lparr>locations := locs, argumentHistory := h2\<rparr>)"

definition mergeHook :: "hooksDb \<Rightarrow> vhook \<Rightarrow> hooksDb" where
  "mergeHook db hook =
     (let db1 = (if map_of db (hookName hook) = None
                 then db @
                        [(hookName hook,
                          \<lparr>name = hookName hook, type = hookType hook,
                            firstVersion = hookVersion hook, locations = [],
                            argumentHistory = []\<rparr>)]
                 else db)
      in mapEntry (hookName hook) (\<lambda>hookData. mergeInto hookData hook) db1)"

text \<open>\<^verbatim>\<open>results.forEach((hooks) => hooks.forEach((hook) => ...))\<close>, from an empty \<^verbatim>\<open>hooksDb\<close>.\<close>

definition mergeResults :: "vhook list list \<Rightarrow> hooksDb" where
  "mergeResults results = fold (\<lambda>hooks db. fold (\<lambda>hook db'. mergeHook db' hook) hooks db) results []"

section \<open>Worker: folding the occurrences of one version\<close>

text \<open>
  \<^verbatim>\<open>getMatchLines\<close>: the line numbers a match spans, from the text before the match
  (\<^verbatim>\<open>content.substring(0, match.index)\<close>) and the matched text.
\<close>

definition getMatchLines :: "string \<Rightarrow> nat \<Rightarrow> string \<Rightarrow> nat list" where
  "getMatchLines content index matchedText =
     (let startLine = length (splitOn (CHR 0x0A) (take index content));
          matchLines = length (splitOn (CHR 0x0A) matchedText)
      in map (\<lambda>i. startLine + i) [0..<matchLines])"

text \<open>The key of \<^verbatim>\<open>hookMap\<close>: \<^verbatim>\<open>`${hook.name}|${hook.type}|${hook.file}`\<close>.\<close>

definition hookKey :: "'a hook_scheme \<Rightarrow> string" where
  "hookKey hook = hookName hook @ ''|'' @ typeString (hookType hook) @ ''|'' @ hookFile hook"

text \<open>One round of \<^verbatim>\<open>foundHooks.forEach\<close> in \<^verbatim>\<open>processVersion\<close>.\<close>

definition foldHook :: "string \<Rightarrow> (string \<times> vhook) list \<Rightarrow> hook \<Rightarrow> (string \<times> vhook) list" where
  "foldHook v hookMap hook =
     (let key = hookKey hook
      in if map_of hookMap key = None
         then hookMap @
                [(key,
                  \<lparr>hookName = hookName hook, hookType = hookType hook, hookFile = hookFile hook,
                    hookLines = hookLines hook,
                    hookArguments = Some (argsOrEmpty (hookArguments hook)),
                    hookVersion = v\<rparr>)]
         else mapEntry key
                (\<lambda>existing.
                   existing\<lparr>hookLines := sort (pushNew (hookLines hook) (hookLines existing))\<rparr>)
                hookMap)"

text \<open>\<^verbatim>\<open>Array.from(hookMap.values())\<close> after the loop.\<close>

definition processVersionFold :: "string \<Rightarrow> hook list \<Rightarrow> vhook list" where
  "processVersionFold v foundHooks = map snd (fold (\<lambda>hook hookMap. foldHook v hookMap hook) foundHooks [])"

section \<open>Argument Normalizer\<close>

















section \<open>Parallel Scheduler\<close>

text \<open>
  What \<^verbatim>\<open>processVersion\<close> does in a worker: it posts \<^verbatim>\<open>{hooks, timing}\<close>; or its
  \<^verbatim>\<open>catch\<close> block posts the bare array \<^verbatim>\<open>[]\<close>; or an error escapes and the worker emits
  \<^verbatim>\<open>error\<close>.
\<close>

datatype outcome = Extracted "vhook list" | Caught | Uncaught

text \<open>The data of a \<^verbatim>\<open>message\<close> event: it has \<^verbatim>\<open>hooks\<close> and \<^verbatim>\<open>timing\<close>, or it has not.\<close>

datatype messageData = HooksAndTiming "vhook list" | OtherData

datatype workerEvent = OnMessage messageData | OnError

fun eventOf :: "outcome \<Rightarrow> workerEvent" where
  "eventOf (Extracted hs) = OnMessage (HooksAndTiming hs)"
| "eventOf Caught = OnMessage OtherData"
| "eventOf Uncaught = OnError"

text \<open>
  The variables of \<^verbatim>\<open>processVersionsInParallel\<close>. A worker is named by the index of its
  version; \<open>resolved\<close> holds the value the promise was resolved with, if it was.
\<close>

record scheduler =
  results :: "vhook list list"
  completed :: nat
  versionIndex :: nat
  workers :: "nat list"
  resolved :: "vhook list list option"

definition createWorker :: "string list \<Rightarrow> scheduler \<Rightarrow> scheduler" where
  "createWorker vs st =
     (if versionIndex st \<ge> length vs then st
      else st\<lparr>versionIndex := versionIndex st + 1, workers := workers st @ [versionIndex st]\<rparr>)"

text \<open>\<^verbatim>\<open>workers.splice(workers.indexOf(worker), 1)\<close>; index \<open>-1\<close> removes the last element.\<close>

definition spliceWorker :: "nat \<Rightarrow> nat list \<Rightarrow> nat list" where
  "spliceWorker w ws = (if w \<in> set ws then remove1 w ws else butlast ws)"

definition finishWorker :: "string list \<Rightarrow> nat \<Rightarrow> scheduler \<Rightarrow> scheduler" where
  "finishWorker vs w st =
     (let st1 = st\<lparr>workers := spliceWorker w (workers st)\<rparr>
      in if completed st1 = length vs
         then st1\<lparr>resolved := (case resolved st1 of None \<Rightarrow> Some (results st1) | Some r \<Rightarrow> Some r)\<rparr>
         else createWorker vs st1)"

text \<open>The two handlers \<^verbatim>\<open>createWorker\<close> registers on a worker.\<close>

fun handleEvent :: "string list \<Rightarrow> nat \<Rightarrow> workerEvent \<Rightarrow> scheduler \<Rightarrow> scheduler" where
  "handleEvent vs w (OnMessage (HooksAndTiming hs)) st =
     finishWorker vs w (st\<lparr>results := results st @ [hs], completed := completed st + 1\<rparr>)"
| "handleEvent vs w (OnMessage OtherData) st = finishWorker vs w st"
| "handleEvent vs w OnError st = finishWorker vs w (st\<lparr>completed := completed st + 1\<rparr>)"

text \<open>The initial batch: \<^verbatim>\<open>for (let i = 0; i < maxWorkers && i < versions.length; i++)\<close>.\<close>

definition startWorkers :: "string list \<Rightarrow> nat \<Rightarrow> scheduler" where
  "startWorkers vs maxWorkers =
     ((createWorker vs) ^^ (min maxWorkers (length vs)))
       \<lparr>results = [], completed = 0, versionIndex = 0, workers = [], resolved = None\<rparr>"

text \<open>
  A run of the scheduler: the workers report in the order \<open>order\<close> gives, worker \<open>w\<close>
  with the event of the outcome of its version. Only a running worker can report.
\<close>

definition deliver :: "string list \<Rightarrow> (nat \<Rightarrow> outcome) \<Rightarrow> nat \<Rightarrow> scheduler \<Rightarrow> scheduler" where
  "deliver vs out w st = (if w \<in> set (workers st) then handleEvent vs w (eventOf (out w)) st else st)"

definition processVersionsInParallel ::
  "string list \<Rightarrow> nat \<Rightarrow> (nat \<Rightarrow> outcome) \<Rightarrow> nat list \<Rightarrow> scheduler" where
  "processVersionsInParallel vs maxWorkers out order =
     fold (deliver vs out) order (startWorkers vs maxWorkers)"

section \<open>Report Assembler\<close>

record reportEntry = entryBase +
  argumentSignature :: "string list"
  changeCount :: nat

record 'h reportHookRecord = "'h hookRecord" +
  hasArgumentChanges :: bool
  argumentChangeCount :: int

type_synonym reportHook = "reportEntry list reportHookRecord"

record reportSummary =
  totalArgumentChanges :: int
  hooksWithMostChanges :: "(string \<times> hookType \<times> int) list"
  retiredHooksList :: "(string \<times> hookType \<times> string option) list"

text \<open>The report, without \<^verbatim>\<open>lastUpdated\<close>, the time of the run.\<close>

record report =
  totalHooks :: nat
  hooksByType :: "(hookType \<times> nat) list"
  hooksWithArgumentChanges :: nat
  latestVersion :: "string option"
  hooksInLatestVersion :: nat
  latestVersionHooksByType :: "(hookType \<times> nat) list"
  retiredHooks :: nat
  hooks :: "reportHook list"
  summary :: reportSummary

text \<open>The array an entry's \<^verbatim>\<open>arguments\<close> field points to.\<close>

definition derefArguments :: "location list \<Rightarrow> argsRef \<Rightarrow> string list" where
  "derefArguments locs r =
     (case r of
        Own xs \<Rightarrow> xs
      | SharedWithLocation v f \<Rightarrow>
          (case find (\<lambda>loc. version loc = v \<and> filePath loc = f) locs of
             Some loc \<Rightarrow> arguments loc
           | None \<Rightarrow> []))"

definition reportHookOf :: "hookData \<Rightarrow> reportHook" where
  "reportHookOf hook =
     (let argumentHistoryArray =
            map (\<lambda>(k, data).
                   \<lparr>firstSeenVersion = firstSeenVersion data, versions = versions data,
                     argumentSignature = derefArguments (locations hook) (entryArguments data),
                     changeCount = length (versions data)\<rparr>)
                (argumentHistory hook)
      in \<lparr>name = name hook, type = type hook, firstVersion = firstVersion hook,
           locations = locations hook, argumentHistory = argumentHistoryArray,
           hasArgumentChanges = (length argumentHistoryArray > 1),
           argumentChangeCount = int (length argumentHistoryArray) - 1\<rparr>)"

text \<open>A comparison that is \<^verbatim>\<open>NaN\<close> counts as zero in \<^verbatim>\<open>sort\<close>.\<close>

definition versionCmp :: "string \<Rightarrow> string \<Rightarrow> int" where
  "versionCmp a b = (case compareVersions a b of Some r \<Rightarrow> r | None \<Rightarrow> 0)"

text \<open>\<^verbatim>\<open>xs[xs.length - 1]\<close> and \<^verbatim>\<open>xs.pop()\<close>: undefined on an empty array.\<close>

definition lastOption :: "'a list \<Rightarrow> 'a option" where
  "lastOption xs = (if xs = [] then None else Some (last xs))"

text \<open>\<^verbatim>\<open>counts[t] = (counts[t] || 0) + 1\<close> over a list of types; the keys keep insertion order.\<close>

definition countByType :: "hookType list \<Rightarrow> (hookType \<times> nat) list" where
  "countByType ts =
     fold (\<lambda>t acc. if map_of acc t = None then acc @ [(t, 1)] else mapEntry t Suc acc) ts []"

definition inVersion :: "string option \<Rightarrow> 'h reportHookRecord \<Rightarrow> bool" where
  "inVersion latest hook = list_ex (\<lambda>loc. Some (version loc) = latest) (locations hook)"

definition generateReport :: "hooksDb \<Rightarrow> report" where
  "generateReport db =
     (let hooks = map (\<lambda>(k, hook). reportHookOf hook) db;
          allVersions = pushNew (concat (map (\<lambda>hook. map version (locations hook)) hooks)) [];
          sortedVersions = sortBy versionCmp allVersions;
          latestVersion = lastOption sortedVersions;
          hooksInLatestVersion = filter (inVersion latestVersion) hooks;
          retiredHooks = filter (\<lambda>hook. \<not> inVersion latestVersion hook) hooks
      in \<lparr>totalHooks = length db,
           hooksByType = countByType (map (\<lambda>(k, hook). type hook) db),
           hooksWithArgumentChanges = length (filter hasArgumentChanges hooksInLatestVersion),
           latestVersion = latestVersion,
           hooksInLatestVersion = length hooksInLatestVersion,
           latestVersionHooksByType = countByType (map type hooksInLatestVersion),
           retiredHooks = length retiredHooks,
           hooks = hooks,
           summary =
             \<lparr>totalArgumentChanges =
                 fold (\<lambda>hook sum. sum + argumentChangeCount hook) hooksInLatestVersion 0,
               hooksWithMostChanges =
                 map (\<lambda>h. (name h, type h, argumentChangeCount h))
                   (take 10
                      (sortBy (\<lambda>a b. argumentChangeCount b - argumentChangeCount a)
                         (filter (\<lambda>h. argumentChangeCount h > 0) hooksInLatestVersion))),
               retiredHooksList =
                 map (\<lambda>h. (name h, type h,
                            lastOption (sortBy versionCmp (map version (locations h)))))
                   (take 10 retiredHooks)\<rparr>\<rparr>)"

text \<open>The part of \<^verbatim>\<open>run\<close> behind the scheduler: merge, consolidate, report.\<close>

definition mergeAndReport :: "vhook list list \<Rightarrow> report" where
  "mergeAndReport rs = generateReport (consolidateArgumentHistory (mergeResults rs))"

section \<open>Auxiliary notions for the proofs\<close>








text \<open>Two worker results for one hook; the worker of the later version has finished first.\<close>

definition lateFirst :: "vhook list list" where
  "lateFirst =
     [[\<lparr>hookName = ''X'', hookType = PluginOutlet, hookFile = ''a.hbs'', hookLines = [1],
        hookArguments = Some [], hookVersion = ''v2.0.0''\<rparr>],
      [\<lparr>hookName = ''X'', hookType = PluginOutlet, hookFile = ''a.hbs'', hookLines = [1],
        hookArguments = Some [], hookVersion = ''v1.0.0''\<rparr>]]"

text \<open>
  Three worker results in version order: the signature of 2.0.0 is seen again in 3.0.0 at a
  second call site, next to the call site of 1.0.0.
\<close>

definition signatureReturns :: "vhook list list" where
  "signatureReturns =
     [[\<lparr>hookName = ''X'', hookType = ValueTransformer, hookFile = ''a.js'', hookLines = [1],
        hookArguments = Some [''string''], hookVersion = ''v1.0.0''\<rparr>],
      [\<lparr>hookName = ''X'', hookType = ValueTransformer, hookFile = ''a.js'', hookLines = [1],
        hookArguments = Some [''topic''], hookVersion = ''v2.0.0''\<rparr>],
      [\<lparr>hookName = ''X'', hookType = ValueTransformer, hookFile = ''a.js'', hookLines = [1],
        hookArguments = Some [''string''], hookVersion = ''v3.0.0''\<rparr>,
       \<lparr>hookName = ''X'', hookType = ValueTransformer, hookFile = ''b.js'', hookLines = [1],
        hookArguments = Some [''topic''], hookVersion = ''v3.0.0''\<rparr>]]"

text \<open>One worker result: an outlet placed in two templates with different argument bags.\<close>

definition twoOutlets :: "vhook list list" where
  "twoOutlets =
     [[\<lparr>hookName = ''X'', hookType = PluginOutlet, hookFile = ''a.hbs'', hookLines = [1],
        hookArguments = Some [''topic''], hookVersion = ''v1.0.0''\<rparr>,
       \<lparr>hookName = ''X'', hookType = PluginOutlet, hookFile = ''b.hbs'', hookLines = [1],
        hookArguments = Some [''user''], hookVersion = ''v1.0.0''\<rparr>]]"

text \<open>The lists of a list have pairwise no element in common.\<close>

fun pairwiseDisjoint :: "'a list list \<Rightarrow> bool" where
  "pairwiseDisjoint [] = True"
| "pairwiseDisjoint (x # xs) = (list_all (\<lambda>y. set x \<inter> set y = {}) xs \<and> pairwiseDisjoint xs)"

text \<open>The \<^verbatim>\<open>versions\<close> of the entries of a hook's argument history, and views of the index.\<close>

definition versionSets :: "hookData \<Rightarrow> string list list" where
  "versionSets hookData = map (\<lambda>(k, e). versions e) (argumentHistory hookData)"

definition firstVersions :: "hooksDb \<Rightarrow> (string \<times> string list) list" where
  "firstVersions db = map (\<lambda>(k, h). (firstVersion h, map version (locations h))) db"

definition historyVersions :: "hooksDb \<Rightarrow> (hookType \<times> (string list \<times> string \<times> string list) list) list" where
  "historyVersions db =
     map (\<lambda>(k, h). (type h, map (\<lambda>(key, e). (key, firstSeenVersion e, versions e)) (argumentHistory h))) db"

definition versionSetsByHook :: "hooksDb \<Rightarrow> (hookType \<times> string list list) list" where
  "versionSetsByHook db = map (\<lambda>(k, h). (type h, versionSets h)) db"

text \<open>
  The record the worker holds under key \<open>k\<close> after folding the occurrences \<open>hs\<close>, and the
  invariant of the fold.
\<close>

definition recordOf :: "string \<Rightarrow> hook list \<Rightarrow> string \<Rightarrow> vhook \<Rightarrow> bool" where
  "recordOf v hs k r =
     (hookKey r = k \<and> hookVersion r = v \<and> sorted (hookLines r) \<and> distinct (hookLines r)
      \<and> set (hookLines r) = (\<Union>h \<in> {h \<in> set hs. hookKey h = k}. set (hookLines h))
      \<and> (\<exists>h0. find (\<lambda>h. hookKey h = k) hs = Some h0
            \<and> hookArguments r = Some (argsOrEmpty (hookArguments h0))
            \<and> hookName r = hookName h0 \<and> hookType r = hookType h0 \<and> hookFile r = hookFile h0))"

definition foldInv :: "string \<Rightarrow> hook list \<Rightarrow> (string \<times> vhook) list \<Rightarrow> bool" where
  "foldInv v hs M =
     (distinct (map fst M) \<and> fst ` set M = hookKey ` set hs
      \<and> (\<forall>(k, r) \<in> set M. recordOf v hs k r))"

text \<open>An occurrence of two lines, as the multi-line scan reports it.\<close>

definition twiceFound :: hook where
  "twiceFound =
     \<lparr>hookName = ''X'', hookType = ValueTransformer, hookFile = ''a.js'', hookLines = [3, 4],
       hookArguments = Some [''topic'']\<rparr>"

text \<open>
  The invariant of the loop of \<^verbatim>\<open>consolidateArgumentHistory\<close> over the versions: the keys
  are distinct, every entry lists each of its versions once, the signature of each of
  them is the entry's key, and the versions listed are the ones visited so far.
\<close>

definition stepInv :: "hookData \<Rightarrow> string set \<Rightarrow> (string list \<times> historyEntry) list \<Rightarrow> bool" where
  "stepInv h S H =
     (distinct (map fst H)
      \<and> (\<forall>(k, e) \<in> set H. distinct (versions e)
            \<and> (\<forall>v \<in> set (versions e). consolidateArgumentsForVersion h v = k))
      \<and> (\<Union>(k, e) \<in> set H. set (versions e)) = S)"









text \<open>
  The workers that have reported and were counted, and the invariant of the scheduler:
  \<open>completed\<close> counts exactly them, and the promise is resolved only once \<open>completed\<close>
  has reached the number of versions.
\<close>

definition countedWorkers :: "(nat \<Rightarrow> outcome) \<Rightarrow> scheduler \<Rightarrow> nat set" where
  "countedWorkers out st = {w. w < versionIndex st \<and> w \<notin> set (workers st) \<and> out w \<noteq> Caught}"

definition schedInv :: "string list \<Rightarrow> (nat \<Rightarrow> outcome) \<Rightarrow> scheduler \<Rightarrow> bool" where
  "schedInv vs out st =
     (versionIndex st \<le> length vs \<and> distinct (workers st)
      \<and> set (workers st) \<subseteq> {..<versionIndex st}
      \<and> completed st = card (countedWorkers out st)
      \<and> (resolved st \<noteq> None \<longrightarrow> length vs \<le> completed st))"

section \<open>Lists and insertion-ordered maps\<close>

lemma set_pushNew: "set (pushNew xs ys) = set ys \<union> set xs"
  unfolding pushNew_def by (induction xs arbitrary: ys) auto

lemma distinct_pushNew: "distinct ys \<Longrightarrow> distinct (pushNew xs ys)"
  unfolding pushNew_def by (induction xs arbitrary: ys) auto

lemma pushNew_subset: "set xs \<subseteq> set ys \<Longrightarrow> pushNew xs ys = ys"
  unfolding pushNew_def by (induction xs arbitrary: ys) auto

lemma map_fst_mapEntry: "map fst (mapEntry k f al) = map fst al"
  unfolding mapEntry_def by (induction al) auto

lemma mapEntry_Nil: "mapEntry k f [] = []"
  by (simp add: mapEntry_def)

lemma mapEntry_Cons:
  "mapEntry k f ((k', x) # al) = (k', if k' = k then f x else x) # mapEntry k f al"
  by (simp add: mapEntry_def)

lemma in_mapEntry:
  "((k', y) \<in> set (mapEntry k f al)) = (\<exists>x. (k', x) \<in> set al \<and> y = (if k' = k then f x else x))"
proof (induction al)
  case Nil
  then show ?case by (simp add: mapEntry_Nil)
next
  case (Cons p al)
  obtain a b where p: "p = (a, b)" by (cases p)
  show ?case unfolding p mapEntry_Cons using Cons by (cases "a = k'") auto
qed

lemma mapEntry_id:
  "(\<And>x. (k, x) \<in> set al \<Longrightarrow> f x = x) \<Longrightarrow> mapEntry k f al = al"
  unfolding mapEntry_def by (induction al) auto

lemma map_of_None_iff: "(map_of al k = None) = (k \<notin> fst ` set al)"
  by (simp add: map_of_eq_None_iff)

lemma find_append_hit:
  "find P xs = Some x \<Longrightarrow> find P (xs @ ys) = Some x"
  by (induction xs) auto

lemma find_append_miss:
  "find P xs = None \<Longrightarrow> find P (xs @ [y]) = (if P y then Some y else None)"
  by (induction xs) (auto split: if_splits)

lemma mapEntry_intro:
  "(k', x) \<in> set al \<Longrightarrow> (k', if k' = k then f x else x) \<in> set (mapEntry k f al)"
  unfolding in_mapEntry by blast

section \<open>The version order\<close>

















section \<open>Positional consolidation\<close>
















section \<open>Arrival order of the worker results\<close>

text \<open>
  Claim C4 (the code departs from it). \<^verbatim>\<open>firstVersion\<close> is the version of the occurrence
  that created the hook's record, so it follows the arrival order of the worker results:
  when the result of 2.0.0 is merged before the one of 1.0.0, the hook has locations at
  both versions and \<^verbatim>\<open>firstVersion\<close> 2.0.0, which is not the minimum; in the other
  order it is 1.0.0.
\<close>

theorem firstVersion_follows_arrival:
  "firstVersions (mergeResults lateFirst) = [(''v2.0.0'', [''v2.0.0'', ''v1.0.0''])]
   \<and> versionLess ''v1.0.0'' ''v2.0.0''
   \<and> firstVersions (mergeResults (rev lateFirst)) = [(''v1.0.0'', [''v1.0.0'', ''v2.0.0''])]"
  by code_simp

text \<open>
  Claim C2 (the code departs from it). The same two worker results in the two arrival
  orders give different merged indexes and different reports: the \<^verbatim>\<open>firstVersion\<close> of the
  hook in the report is 2.0.0 in one order and 1.0.0 in the other.
\<close>

theorem report_follows_arrival:
  "map firstVersion (hooks (mergeAndReport lateFirst)) = [''v2.0.0'']
   \<and> map firstVersion (hooks (mergeAndReport (rev lateFirst))) = [''v1.0.0'']
   \<and> mergeResults lateFirst \<noteq> mergeResults (rev lateFirst)"
  by code_simp

text \<open>
  Claim C3 (the code departs from it). \<^verbatim>\<open>consolidateArgumentHistory\<close> visits the versions
  in the insertion order of the raw history, not in version order, and
  \<^verbatim>\<open>firstSeenVersion\<close> is the first version visited. Even with the worker results merged
  in version order, the entry of signature \<^verbatim>\<open>[topic]\<close> gets \<^verbatim>\<open>firstSeenVersion\<close> 3.0.0
  while its versions are 3.0.0 and 2.0.0.
\<close>

theorem firstSeenVersion_not_minimum:
  "historyVersions (consolidateArgumentHistory (mergeResults signatureReturns))
     = [(ValueTransformer,
          [([''value''], ''v1.0.0'', [''v1.0.0'']),
           ([''topic''], ''v3.0.0'', [''v3.0.0'', ''v2.0.0''])])]
   \<and> versionLess ''v2.0.0'' ''v3.0.0''"
  by code_simp

section \<open>The worker's fold\<close>

lemma recordOf_other:
  assumes "recordOf v hs k r" "hookKey h \<noteq> k"
  shows "recordOf v (hs @ [h]) k r"
proof -
  from assms(1) obtain h0 where f: "find (\<lambda>h. hookKey h = k) hs = Some h0"
    and rest: "hookArguments r = Some (argsOrEmpty (hookArguments h0))"
      "hookName r = hookName h0" "hookType r = hookType h0" "hookFile r = hookFile h0"
    unfolding recordOf_def by blast
  have u: "(\<Union>h' \<in> {h' \<in> set (hs @ [h]). hookKey h' = k}. set (hookLines h'))
         = (\<Union>h' \<in> {h' \<in> set hs. hookKey h' = k}. set (hookLines h'))"
    using assms(2) by auto
  from assms(1) have base: "hookKey r = k" "hookVersion r = v" "sorted (hookLines r)"
    "distinct (hookLines r)"
    "set (hookLines r) = (\<Union>h \<in> {h \<in> set hs. hookKey h = k}. set (hookLines h))"
    unfolding recordOf_def by simp_all
  show ?thesis
    unfolding recordOf_def u
    using base rest find_append_hit[OF f] by simp
qed

lemma recordOf_new:
  assumes "hookKey h \<notin> hookKey ` set hs" "sorted (hookLines h)" "distinct (hookLines h)"
  shows "recordOf v (hs @ [h]) (hookKey h)
           \<lparr>hookName = hookName h, hookType = hookType h, hookFile = hookFile h,
             hookLines = hookLines h,
             hookArguments = Some (argsOrEmpty (hookArguments h)),
             hookVersion = v\<rparr>"
proof -
  from assms(1) have none: "find (\<lambda>h'. hookKey h' = hookKey h) hs = None"
    by (auto simp: find_None_iff image_iff)
  have u: "(\<Union>h' \<in> {h' \<in> set (hs @ [h]). hookKey h' = hookKey h}. set (hookLines h'))
         = set (hookLines h)"
    using assms(1) by (auto simp: image_iff)
  show ?thesis
    unfolding recordOf_def u
    using assms(2,3) find_append_miss[OF none, of h] by (simp add: hookKey_def)
qed

lemma recordOf_merge:
  assumes "recordOf v hs (hookKey h) r" "sorted (hookLines h)" "distinct (hookLines h)"
  shows "recordOf v (hs @ [h]) (hookKey h)
           (r\<lparr>hookLines := sort (pushNew (hookLines h) (hookLines r))\<rparr>)"
proof -
  from assms(1) obtain h0 where f: "find (\<lambda>h'. hookKey h' = hookKey h) hs = Some h0"
    and rest: "hookArguments r = Some (argsOrEmpty (hookArguments h0))"
      "hookName r = hookName h0" "hookType r = hookType h0" "hookFile r = hookFile h0"
    unfolding recordOf_def by blast
  from assms(1) have base: "hookKey r = hookKey h" "hookVersion r = v" "distinct (hookLines r)"
    "set (hookLines r) = (\<Union>h' \<in> {h' \<in> set hs. hookKey h' = hookKey h}. set (hookLines h'))"
    unfolding recordOf_def by simp_all
  have u: "(\<Union>h' \<in> {h' \<in> set (hs @ [h]). hookKey h' = hookKey h}. set (hookLines h'))
         = (\<Union>h' \<in> {h' \<in> set hs. hookKey h' = hookKey h}. set (hookLines h')) \<union> set (hookLines h)"
    by auto
  have k: "hookKey (r\<lparr>hookLines := ls\<rparr>) = hookKey r" for ls
    by (simp add: hookKey_def)
  show ?thesis
    unfolding recordOf_def u k
    using base rest find_append_hit[OF f]
    by (simp add: set_pushNew distinct_pushNew)
qed

lemma foldInvI:
  assumes "distinct (map fst M)" "fst ` set M = hookKey ` set hs"
    "\<And>k r. (k, r) \<in> set M \<Longrightarrow> recordOf v hs k r"
  shows "foldInv v hs M"
  unfolding foldInv_def using assms by blast

lemma foldInvD:
  assumes "foldInv v hs M"
  shows "distinct (map fst M)" "fst ` set M = hookKey ` set hs"
    "\<And>k r. (k, r) \<in> set M \<Longrightarrow> recordOf v hs k r"
  using assms unfolding foldInv_def by blast+

lemma foldInv_step:
  assumes inv: "foldInv v hs M" and ok: "sorted (hookLines h)" "distinct (hookLines h)"
  shows "foldInv v (hs @ [h]) (foldHook v M h)"
proof (cases "map_of M (hookKey h) = None")
  case True
  note d = foldInvD(1)[OF inv] and keys = foldInvD(2)[OF inv] and recs = foldInvD(3)[OF inv]
  from True have notin: "hookKey h \<notin> fst ` set M"
    by (simp add: map_of_None_iff)
  with keys have new: "hookKey h \<notin> hookKey ` set hs" by simp
  let ?r = "\<lparr>hookName = hookName h, hookType = hookType h, hookFile = hookFile h,
             hookLines = hookLines h,
             hookArguments = Some (argsOrEmpty (hookArguments h)),
             hookVersion = v\<rparr>"
  have M': "foldHook v M h = M @ [(hookKey h, ?r)]"
    using True by (simp add: foldHook_def Let_def)
  show ?thesis
    unfolding M'
  proof (rule foldInvI)
    show "distinct (map fst (M @ [(hookKey h, ?r)]))"
      using d notin by simp
    show "fst ` set (M @ [(hookKey h, ?r)]) = hookKey ` set (hs @ [h])"
      using keys by simp
    fix k r assume "(k, r) \<in> set (M @ [(hookKey h, ?r)])"
    then consider "(k, r) \<in> set M" | "k = hookKey h" "r = ?r" by auto
    then show "recordOf v (hs @ [h]) k r"
    proof cases
      case 1
      then have "k \<in> fst ` set M" by (rule rev_image_eqI) simp
      with notin have "hookKey h \<noteq> k" by blast
      with recs[OF 1] show ?thesis by (rule recordOf_other)
    next
      case 2
      with recordOf_new[OF new ok, of v] show ?thesis by simp
    qed
  qed
next
  case False
  note d = foldInvD(1)[OF inv] and keys = foldInvD(2)[OF inv] and recs = foldInvD(3)[OF inv]
  from False have "hookKey h \<in> fst ` set M"
    by (simp add: map_of_None_iff)
  with keys have ex: "hookKey h \<in> hookKey ` set hs" by simp
  let ?f = "\<lambda>existing. existing\<lparr>hookLines := sort (pushNew (hookLines h) (hookLines existing))\<rparr>"
  have M': "foldHook v M h = mapEntry (hookKey h) ?f M"
    using False by (auto simp: foldHook_def Let_def)
  show ?thesis
    unfolding M'
  proof (rule foldInvI)
    show "distinct (map fst (mapEntry (hookKey h) ?f M))"
      unfolding map_fst_mapEntry by (rule d)
    have "fst ` set (mapEntry (hookKey h) ?f M) = set (map fst (mapEntry (hookKey h) ?f M))"
      by simp
    also have "\<dots> = fst ` set M" unfolding map_fst_mapEntry by simp
    also have "\<dots> = hookKey ` set (hs @ [h])" using keys ex by auto
    finally show "fst ` set (mapEntry (hookKey h) ?f M) = hookKey ` set (hs @ [h])" .
    fix k' r' assume "(k', r') \<in> set (mapEntry (hookKey h) ?f M)"
    then obtain r where r: "(k', r) \<in> set M" "r' = (if k' = hookKey h then ?f r else r)"
      unfolding in_mapEntry by blast
    note ro = recs[OF r(1)]
    show "recordOf v (hs @ [h]) k' r'"
    proof (cases "k' = hookKey h")
      case True
      with ro have "recordOf v hs (hookKey h) r" by simp
      from recordOf_merge[OF this ok] True r(2) show ?thesis by simp
    next
      case False
      then have "hookKey h \<noteq> k'" by simp
      from recordOf_other[OF ro this] False r(2) show ?thesis by simp
    qed
  qed
qed

lemma foldInv_fold:
  assumes "\<forall>h \<in> set hs. sorted (hookLines h) \<and> distinct (hookLines h)"
  shows "foldInv v hs (fold (\<lambda>hook hookMap. foldHook v hookMap hook) hs [])"
  using assms
proof (induction hs rule: rev_induct)
  case Nil
  then show ?case by (simp add: foldInv_def)
next
  case (snoc h hs)
  then have "foldInv v hs (fold (\<lambda>hook hookMap. foldHook v hookMap hook) hs [])" by simp
  from foldInv_step[OF this] snoc.prems show ?case by simp
qed

lemma sep_split:
  assumes "c \<notin> set a"
  shows "takeWhile (\<lambda>x. x \<noteq> c) (a @ c # r) = a" "dropWhile (\<lambda>x. x \<noteq> c) (a @ c # r) = c # r"
  using assms by (induction a) auto

lemma sep_inj:
  assumes "c \<notin> set a" "c \<notin> set a'" "a @ c # r = a' @ c # r'"
  shows "a = a' \<and> r = r'"
proof -
  from assms(3) have "takeWhile (\<lambda>x. x \<noteq> c) (a @ c # r) = takeWhile (\<lambda>x. x \<noteq> c) (a' @ c # r')"
    by simp
  then have "a = a'" by (simp add: sep_split assms(1,2))
  with assms(3) show ?thesis by simp
qed

lemma typeString_no_bar: "CHR ''|'' \<notin> set (typeString t)"
  by (cases t) simp_all

lemma typeString_inj: "typeString s = typeString t \<Longrightarrow> s = t"
  by (cases s; cases t) simp_all

lemma hookKey_inj:
  assumes "CHR ''|'' \<notin> set (hookName a)" "CHR ''|'' \<notin> set (hookName b)"
  shows "(hookKey a = hookKey b)
       = (hookName a = hookName b \<and> hookType a = hookType b \<and> hookFile a = hookFile b)"
proof
  assume "hookKey a = hookKey b"
  then have e: "hookName a @ CHR ''|'' # (typeString (hookType a) @ CHR ''|'' # hookFile a)
        = hookName b @ CHR ''|'' # (typeString (hookType b) @ CHR ''|'' # hookFile b)"
    by (simp add: hookKey_def)
  from sep_inj[OF assms e] have n: "hookName a = hookName b"
    and r: "typeString (hookType a) @ CHR ''|'' # hookFile a = typeString (hookType b) @ CHR ''|'' # hookFile b"
    by simp_all
  from sep_inj[OF typeString_no_bar typeString_no_bar r] typeString_inj n
  show "hookName a = hookName b \<and> hookType a = hookType b \<and> hookFile a = hookFile b"
    by blast
next
  assume "hookName a = hookName b \<and> hookType a = hookType b \<and> hookFile a = hookFile b"
  then show "hookKey a = hookKey b" by (simp add: hookKey_def)
qed

lemma hookKey_triple:
  "(hookName a, hookType a, hookFile a) = (hookName b, hookType b, hookFile b)
     \<Longrightarrow> hookKey a = hookKey b"
  by (simp add: hookKey_def)

lemma distinct_map_coarser:
  assumes "distinct (map f xs)" "\<And>x y. t x = t y \<Longrightarrow> f x = f y"
  shows "distinct (map t xs)"
proof -
  from assms(1) have d: "distinct xs" and i: "inj_on f (set xs)" by (simp_all add: distinct_map)
  have "inj_on t (set xs)"
    by (rule inj_onI) (use i assms(2) in \<open>auto dest: inj_onD\<close>)
  with d show ?thesis by (simp add: distinct_map)
qed

lemma map_keys_snd:
  assumes "\<And>k r. (k, r) \<in> set M \<Longrightarrow> hookKey r = k"
  shows "map hookKey (map snd M) = map fst M"
  using assms by (induction M) auto

lemma fold_snoc: "fold f (xs @ [x]) s = f x (fold f xs s)"
  by simp

lemma foldHook_again:
  assumes inv: "foldInv v hs M" and h: "h \<in> set hs"
  shows "foldHook v M h = M"
proof -
  note keys = foldInvD(2)[OF inv] and recs = foldInvD(3)[OF inv]
  from h keys have "hookKey h \<in> fst ` set M" by simp
  then have ex: "map_of M (hookKey h) \<noteq> None" by (simp add: map_of_None_iff)
  let ?f = "\<lambda>existing. existing\<lparr>hookLines := sort (pushNew (hookLines h) (hookLines existing))\<rparr>"
  have M': "foldHook v M h = mapEntry (hookKey h) ?f M"
    using ex by (auto simp: foldHook_def Let_def)
  have "?f r = r" if "(hookKey h, r) \<in> set M" for r
  proof -
    from recs[OF that] have s: "sorted (hookLines r)"
      and u: "set (hookLines r) = (\<Union>h' \<in> {h' \<in> set hs. hookKey h' = hookKey h}. set (hookLines h'))"
      unfolding recordOf_def by simp_all
    from u h have "set (hookLines h) \<subseteq> set (hookLines r)" by blast
    then have "pushNew (hookLines h) (hookLines r) = hookLines r" by (rule pushNew_subset)
    with s show ?thesis by (simp add: sort_key_id_if_sorted)
  qed
  then have "mapEntry (hookKey h) ?f M = M" by (rule mapEntry_id)
  with M' show ?thesis by simp
qed

text \<open>The line lists the extractor reports are not empty, ascending and duplicate-free.\<close>

lemma splitOn_nonempty: "splitOn d s \<noteq> []"
  by (induction s) (auto split: list.splits)

lemma getMatchLines_ascending:
  "getMatchLines content index matchedText \<noteq> []
   \<and> sorted (getMatchLines content index matchedText)
   \<and> distinct (getMatchLines content index matchedText)
   \<and> 0 \<notin> set (getMatchLines content index matchedText)"
proof -
  have 1: "0 < length (splitOn (CHR 0x0A) matchedText)"
    using splitOn_nonempty[of "CHR 0x0A" matchedText] by simp
  have 2: "0 < length (splitOn (CHR 0x0A) (take index content))"
    using splitOn_nonempty[of "CHR 0x0A" "take index content"] by simp
  have s: "sorted (map (\<lambda>i. n + i) [0..<m])" for n m :: nat
    by (simp add: sorted_map sorted_wrt_iff_nth_less)
  have d: "distinct (map (\<lambda>i. n + i) [0..<m])" for n m :: nat
    by (simp add: distinct_map inj_on_def)
  show ?thesis
    unfolding getMatchLines_def Let_def using 1 2 s d by auto
qed

text \<open>
  Claim C5. Folding the occurrences of one version, each with an ascending duplicate-free
  line list (what \<^verbatim>\<open>getMatchLines\<close> and the single-line scan produce), gives at most one record per key
  \<^verbatim>\<open>name|type|file\<close>, hence per (name, type, file), and one for every key that occurs;
  the lines of a record are the sorted duplicate-free union of the lines of the
  occurrences with its key; its arguments, name, type and file are those of the first
  such occurrence; its version is the worker's. Folding an occurrence that was already
  folded changes nothing, so an occurrence found twice gives the record it gives when
  found once. Keys are equal exactly for equal (name, type, file) when no name holds the
  separator \<^verbatim>\<open>|\<close>.
\<close>

theorem processVersionFold_union:
  assumes "list_all (\<lambda>h. sorted (hookLines h) \<and> distinct (hookLines h)) found"
  shows "distinct (map hookKey (processVersionFold v found))
     \<and> distinct (map (\<lambda>r. (hookName r, hookType r, hookFile r)) (processVersionFold v found))
     \<and> set (map hookKey (processVersionFold v found)) = set (map hookKey found)
     \<and> (\<forall>r \<in> set (processVersionFold v found).
          hookLines r = sorted_list_of_set
                          (\<Union>h \<in> {h \<in> set found. hookKey h = hookKey r}. set (hookLines h))
          \<and> (\<exists>h0. find (\<lambda>h. hookKey h = hookKey r) found = Some h0
               \<and> hookArguments r = Some (argsOrEmpty (hookArguments h0))
               \<and> hookName r = hookName h0 \<and> hookType r = hookType h0 \<and> hookFile r = hookFile h0)
          \<and> hookVersion r = v)
     \<and> (\<forall>h \<in> set found. processVersionFold v (found @ [h]) = processVersionFold v found)
     \<and> (\<forall>a \<in> set found. \<forall>b \<in> set found.
          CHR ''|'' \<notin> set (hookName a) \<and> CHR ''|'' \<notin> set (hookName b) \<longrightarrow>
          (hookKey a = hookKey b)
            = (hookName a = hookName b \<and> hookType a = hookType b \<and> hookFile a = hookFile b))"
proof -
  let ?M = "fold (\<lambda>hook hookMap. foldHook v hookMap hook) found []"
  from assms have ok: "\<forall>h \<in> set found. sorted (hookLines h) \<and> distinct (hookLines h)"
    by (simp add: list_all_iff)
  note inv = foldInv_fold[OF ok, of v]
  note d = foldInvD(1)[OF inv] and keys = foldInvD(2)[OF inv] and recs = foldInvD(3)[OF inv]
  have out: "processVersionFold v found = map snd ?M"
    by (simp add: processVersionFold_def)
  have key_of: "hookKey r = k" if "(k, r) \<in> set ?M" for k r
    using recs[OF that] unfolding recordOf_def by simp
  have mk: "map hookKey (map snd ?M) = map fst ?M"
    by (rule map_keys_snd) (rule key_of)
  have 1: "distinct (map hookKey (processVersionFold v found))"
    unfolding out mk by (rule d)
  have 2: "distinct (map (\<lambda>r. (hookName r, hookType r, hookFile r)) (processVersionFold v found))"
    by (rule distinct_map_coarser[OF 1]) (rule hookKey_triple)
  have 3: "set (map hookKey (processVersionFold v found)) = set (map hookKey found)"
    unfolding out mk using keys by simp
  have 4: "hookLines r = sorted_list_of_set
                          (\<Union>h \<in> {h \<in> set found. hookKey h = hookKey r}. set (hookLines h))
          \<and> (\<exists>h0. find (\<lambda>h. hookKey h = hookKey r) found = Some h0
               \<and> hookArguments r = Some (argsOrEmpty (hookArguments h0))
               \<and> hookName r = hookName h0 \<and> hookType r = hookType h0 \<and> hookFile r = hookFile h0)
          \<and> hookVersion r = v"
    if "r \<in> set (processVersionFold v found)" for r
  proof -
    from that obtain k where kr: "(k, r) \<in> set ?M" unfolding out by auto
    note ro = recs[OF kr]
    from ro have k: "hookKey r = k" unfolding recordOf_def by simp
    from ro have s: "sorted (hookLines r)" "distinct (hookLines r)"
      and u: "set (hookLines r) = (\<Union>h \<in> {h \<in> set found. hookKey h = hookKey r}. set (hookLines h))"
      unfolding recordOf_def k[symmetric] by simp_all
    from s have "sorted_list_of_set (set (hookLines r)) = hookLines r"
      by (rule sorted_list_of_set.idem_if_sorted_distinct)
    then have l: "hookLines r = sorted_list_of_set
                          (\<Union>h \<in> {h \<in> set found. hookKey h = hookKey r}. set (hookLines h))"
      unfolding u by simp
    from ro have rest: "(\<exists>h0. find (\<lambda>h. hookKey h = hookKey r) found = Some h0
               \<and> hookArguments r = Some (argsOrEmpty (hookArguments h0))
               \<and> hookName r = hookName h0 \<and> hookType r = hookType h0 \<and> hookFile r = hookFile h0)"
      and ver: "hookVersion r = v"
      unfolding recordOf_def k[symmetric] by simp_all
    from l rest ver show ?thesis by simp
  qed
  have 5: "processVersionFold v (found @ [h]) = processVersionFold v found" if "h \<in> set found" for h
    unfolding processVersionFold_def fold_snoc foldHook_again[OF inv that] ..
  have 6: "(hookKey a = hookKey b)
            = (hookName a = hookName b \<and> hookType a = hookType b \<and> hookFile a = hookFile b)"
    if "CHR ''|'' \<notin> set (hookName a) \<and> CHR ''|'' \<notin> set (hookName b)" for a b :: hook
    using that by (intro hookKey_inj) simp_all
  from 1 2 3 4 5 6 show ?thesis by (intro conjI ballI impI) blast+
qed

theorem processVersionFold_union_witness:
  "list_all (\<lambda>h. sorted (hookLines h) \<and> distinct (hookLines h)) [twiceFound]
   \<and> processVersionFold ''v1.0.0'' [twiceFound, twiceFound] = processVersionFold ''v1.0.0'' [twiceFound]
   \<and> processVersionFold ''v1.0.0'' [twiceFound] =
       [\<lparr>hookName = ''X'', hookType = ValueTransformer, hookFile = ''a.js'', hookLines = [3, 4],
         hookArguments = Some [''topic''], hookVersion = ''v1.0.0''\<rparr>]"
proof -
  have hyp: "list_all (\<lambda>h. sorted (hookLines h) \<and> distinct (hookLines h)) [twiceFound]"
    by (simp add: twiceFound_def)
  from processVersionFold_union[OF hyp, of "''v1.0.0''"]
  have "\<forall>h \<in> set [twiceFound].
          processVersionFold ''v1.0.0'' ([twiceFound] @ [h]) = processVersionFold ''v1.0.0'' [twiceFound]"
    by (elim conjE)
  then have twice: "processVersionFold ''v1.0.0'' [twiceFound, twiceFound]
                      = processVersionFold ''v1.0.0'' [twiceFound]"
    by simp
  have once: "processVersionFold ''v1.0.0'' [twiceFound] =
       [\<lparr>hookName = ''X'', hookType = ValueTransformer, hookFile = ''a.js'', hookLines = [3, 4],
         hookArguments = Some [''topic''], hookVersion = ''v1.0.0''\<rparr>]"
    by code_simp
  from hyp twice once show ?thesis by (intro conjI)
qed

section \<open>The consolidated history partitions the versions\<close>

lemma stepInvI:
  assumes "distinct (map fst H)"
    "\<And>k e. (k, e) \<in> set H \<Longrightarrow> distinct (versions e)"
    "\<And>k e v. (k, e) \<in> set H \<Longrightarrow> v \<in> set (versions e) \<Longrightarrow> consolidateArgumentsForVersion h v = k"
    "(\<Union>(k, e) \<in> set H. set (versions e)) = S"
  shows "stepInv h S H"
  unfolding stepInv_def using assms by blast

lemma stepInvD:
  assumes "stepInv h S H"
  shows "distinct (map fst H)"
    "\<And>k e. (k, e) \<in> set H \<Longrightarrow> distinct (versions e)"
    "\<And>k e v. (k, e) \<in> set H \<Longrightarrow> v \<in> set (versions e) \<Longrightarrow> consolidateArgumentsForVersion h v = k"
    "(\<Union>(k, e) \<in> set H. set (versions e)) = S"
  using assms unfolding stepInv_def by blast+

lemma pairwiseDisjoint_tagged:
  assumes "distinct (map fst H)"
    "\<And>k e v. (k, e) \<in> set H \<Longrightarrow> v \<in> set (versions e) \<Longrightarrow> f v = k"
  shows "pairwiseDisjoint (map (\<lambda>(k, e). versions e) H)"
  using assms
proof (induction H)
  case Nil
  then show ?case by simp
next
  case (Cons p H)
  obtain k e where p: "p = (k, e)" by (cases p)
  from Cons.prems(1) have notin: "k \<notin> fst ` set H" and d: "distinct (map fst H)"
    by (simp_all add: p)
  have tail: "pairwiseDisjoint (map (\<lambda>(k, e). versions e) H)"
  proof (rule Cons.IH[OF d])
    fix k' e' v assume "(k', e') \<in> set H" "v \<in> set (versions e')"
    then show "f v = k'" by (intro Cons.prems(2)[of k' e' v]) simp_all
  qed
  have "set (versions e) \<inter> set (versions e') = {}" if "(k', e') \<in> set H" for k' e'
  proof (rule ccontr)
    assume "set (versions e) \<inter> set (versions e') \<noteq> {}"
    then obtain v where v: "v \<in> set (versions e)" "v \<in> set (versions e')" by blast
    have "f v = k" by (rule Cons.prems(2)[OF _ v(1)]) (simp add: p)
    moreover have "f v = k'" by (rule Cons.prems(2)[OF _ v(2)]) (simp add: that)
    ultimately have "k = k'" by simp
    with that have "k \<in> fst ` set H" by (auto intro: rev_image_eqI)
    with notin show False ..
  qed
  then have "list_all (\<lambda>y. set (versions e) \<inter> set y = {}) (map (\<lambda>(k, e). versions e) H)"
    by (auto simp: list_all_iff)
  with tail show ?case by (simp add: p)
qed

lemma consolidateStep_eq:
  "consolidateStep h v H =
     mapEntry (consolidateArgumentsForVersion h v)
       (\<lambda>e. if v \<in> set (versions e) then e else e\<lparr>versions := versions e @ [v]\<rparr>)
       (if consolidateArgumentsForVersion h v \<in> fst ` set H then H
        else H @ [(consolidateArgumentsForVersion h v,
                   \<lparr>firstSeenVersion = v, versions = [],
                     entryArguments = Own (consolidateArgumentsForVersion h v)\<rparr>)])"
  by (auto simp: consolidateStep_def Let_def map_of_None_iff)

lemma stepInv_step:
  assumes inv: "stepInv h S H"
  shows "stepInv h (insert v S) (consolidateStep h v H)"
proof -
  note d = stepInvD(1)[OF inv] and dv = stepInvD(2)[OF inv] and tag = stepInvD(3)[OF inv]
    and un = stepInvD(4)[OF inv]
  let ?key = "consolidateArgumentsForVersion h v"
  let ?g = "\<lambda>e. if v \<in> set (versions e) then e else e\<lparr>versions := versions e @ [v]\<rparr>"
  let ?new = "\<lparr>firstSeenVersion = v, versions = [], entryArguments = Own ?key\<rparr>"
  let ?H1 = "if ?key \<in> fst ` set H then H else H @ [(?key, ?new)]"
  have d1: "distinct (map fst ?H1)" using d by simp
  have in1: "(k, e) \<in> set H \<or> (k = ?key \<and> e = ?new)" if "(k, e) \<in> set ?H1" for k e
    using that by (auto split: if_splits)
  have sub1: "(k, e) \<in> set ?H1" if "(k, e) \<in> set H" for k e
    using that by simp
  have has: "\<exists>e. (?key, e) \<in> set ?H1" by auto
  have gset: "set (versions (?g e)) = (if True then insert v (set (versions e)) else {})" for e
    by auto
  show ?thesis
    unfolding consolidateStep_eq
  proof (rule stepInvI)
    show "distinct (map fst (mapEntry ?key ?g ?H1))"
      unfolding map_fst_mapEntry by (rule d1)
  next
    fix k y assume "(k, y) \<in> set (mapEntry ?key ?g ?H1)"
    then obtain e where e: "(k, e) \<in> set ?H1" "y = (if k = ?key then ?g e else e)"
      unfolding in_mapEntry by blast
    from in1[OF e(1)] have "distinct (versions e)" using dv by auto
    with e(2) show "distinct (versions y)" by auto
  next
    fix k y w assume "(k, y) \<in> set (mapEntry ?key ?g ?H1)" and w: "w \<in> set (versions y)"
    then obtain e where e: "(k, e) \<in> set ?H1" "y = (if k = ?key then ?g e else e)"
      unfolding in_mapEntry by blast
    have old: "consolidateArgumentsForVersion h w = k" if "w \<in> set (versions e)"
      using in1[OF e(1)] that tag by auto
    show "consolidateArgumentsForVersion h w = k"
    proof (cases "k = ?key")
      case True
      with e(2) w have "w = v \<or> w \<in> set (versions e)" by (auto split: if_splits)
      with True old show ?thesis by auto
    next
      case False
      with e(2) w old show ?thesis by simp
    qed
  next
    show "(\<Union>(k, e) \<in> set (mapEntry ?key ?g ?H1). set (versions e)) = insert v S"
    proof (intro set_eqI iffI)
      fix w assume "w \<in> (\<Union>(k, e) \<in> set (mapEntry ?key ?g ?H1). set (versions e))"
      then obtain k y where y: "(k, y) \<in> set (mapEntry ?key ?g ?H1)" "w \<in> set (versions y)"
        by auto
      then obtain e where e: "(k, e) \<in> set ?H1" "y = (if k = ?key then ?g e else e)"
        unfolding in_mapEntry by blast
      from e(2) y(2) have "w = v \<or> w \<in> set (versions e)" by (auto split: if_splits)
      moreover have "w \<in> S" if "w \<in> set (versions e)"
        using in1[OF e(1)] that un by auto
      ultimately show "w \<in> insert v S" by auto
    next
      fix w assume w: "w \<in> insert v S"
      show "w \<in> (\<Union>(k, e) \<in> set (mapEntry ?key ?g ?H1). set (versions e))"
      proof (cases "w = v")
        case True
        from has obtain e where e: "(?key, e) \<in> set ?H1" ..
        from mapEntry_intro[OF e, of ?key ?g]
        have "(?key, ?g e) \<in> set (mapEntry ?key ?g ?H1)" by simp
        moreover have "v \<in> set (versions (?g e))" by simp
        ultimately show ?thesis unfolding True by blast
      next
        case False
        with w un obtain k e where e: "(k, e) \<in> set H" "w \<in> set (versions e)" by auto
        from sub1[OF e(1)] have "(k, if k = ?key then ?g e else e) \<in> set (mapEntry ?key ?g ?H1)"
          by (rule mapEntry_intro)
        moreover from e(2) have "w \<in> set (versions (if k = ?key then ?g e else e))" by simp
        ultimately show ?thesis by blast
      qed
    qed
  qed
qed

lemma stepInv_fold:
  "stepInv h S H \<Longrightarrow> stepInv h (S \<union> set vs) (fold (consolidateStep h) vs H)"
proof (induction vs arbitrary: S H)
  case Nil
  then show ?case by simp
next
  case (Cons v vs)
  from Cons.IH[OF stepInv_step[OF Cons.prems, of v]] show ?case by simp
qed

lemma stepInv_empty: "stepInv h {} []"
  by (simp add: stepInv_def)

lemma set_concat_versions:
  "set (concat (map (\<lambda>(k, e). versions e) H)) = (\<Union>(k, e) \<in> set H. set (versions e))"
  by auto

lemma consolidateHook_type: "type (consolidateHook h) = type h"
  by (simp add: consolidateHook_def Let_def)

lemma consolidateHook_tracked:
  assumes "type h = ValueTransformer \<or> type h = AppEventTrigger"
  shows "pairwiseDisjoint (versionSets (consolidateHook h))"
    and "list_all distinct (versionSets (consolidateHook h))"
    and "set (concat (versionSets (consolidateHook h))) = set (concat (versionSets h))"
proof -
  let ?vs = "pushNew (concat (map (\<lambda>(k, history). versions history) (argumentHistory h))) []"
  let ?H = "fold (consolidateStep h) ?vs []"
  from assms have eq: "consolidateHook h = h\<lparr>argumentHistory := ?H\<rparr>"
    by (auto simp: consolidateHook_def Let_def)
  have vs: "versionSets (consolidateHook h) = map (\<lambda>(k, e). versions e) ?H"
    unfolding eq by (simp add: versionSets_def)
  from stepInv_fold[OF stepInv_empty, of h ?vs] have inv: "stepInv h (set ?vs) ?H" by simp
  show "pairwiseDisjoint (versionSets (consolidateHook h))"
    unfolding vs
    by (rule pairwiseDisjoint_tagged[OF stepInvD(1)[OF inv]]) (rule stepInvD(3)[OF inv])
  show "list_all distinct (versionSets (consolidateHook h))"
    unfolding vs using stepInvD(2)[OF inv] by (auto simp: list_all_iff)
  have "set (concat (versionSets (consolidateHook h))) = set ?vs"
    unfolding vs set_concat_versions by (rule stepInvD(4)[OF inv])
  also have "\<dots> = set (concat (versionSets h))"
    by (simp add: set_pushNew versionSets_def)
  finally show "set (concat (versionSets (consolidateHook h))) = set (concat (versionSets h))" .
qed

lemma consolidateHook_untracked:
  assumes "\<not> (type h = ValueTransformer \<or> type h = AppEventTrigger)"
  shows "consolidateHook h = h"
  using assms by (simp add: consolidateHook_def)

lemma consolidateHook_versions:
  "set (concat (versionSets (consolidateHook h))) = set (concat (versionSets h))"
proof (cases "type h = ValueTransformer \<or> type h = AppEventTrigger")
  case True
  then show ?thesis by (rule consolidateHook_tracked(3))
next
  case False
  from consolidateHook_untracked[OF False] show ?thesis by simp
qed

text \<open>
  Claim C8 as stated fails for outlets: \<^verbatim>\<open>consolidateArgumentHistory\<close> skips every hook
  that is no value transformer and no event trigger, so an outlet keeps its raw history,
  in which one version is listed under each argument bag seen at that version.
\<close>

theorem plugin_outlet_versions_overlap:
  "versionSetsByHook (consolidateArgumentHistory (mergeResults twoOutlets))
     = [(PluginOutlet, [[''v1.0.0''], [''v1.0.0'']])]
   \<and> \<not> pairwiseDisjoint [[''v1.0.0''], [''v1.0.0'']]"
  by code_simp

text \<open>
  Claim C8, amended. After consolidation, for every hook whose type is value transformer
  or event trigger, the \<^verbatim>\<open>versions\<close> of the entries of its argument history are
  pairwise disjoint and list no version twice; and for every hook, the versions its
  history lists are the ones it listed before consolidation, so each version at which a
  consolidated hook was seen is in exactly one entry.
\<close>

theorem consolidated_versions_disjoint:
  "list_all (\<lambda>(k, h). (type h = ValueTransformer \<or> type h = AppEventTrigger) \<longrightarrow>
        pairwiseDisjoint (versionSets h) \<and> list_all distinct (versionSets h))
     (consolidateArgumentHistory db)
   \<and> map (\<lambda>(k, h). (k, type h, set (concat (versionSets h)))) (consolidateArgumentHistory db)
     = map (\<lambda>(k, h). (k, type h, set (concat (versionSets h)))) db"
proof (intro conjI)
  show "list_all (\<lambda>(k, h). (type h = ValueTransformer \<or> type h = AppEventTrigger) \<longrightarrow>
        pairwiseDisjoint (versionSets h) \<and> list_all distinct (versionSets h))
     (consolidateArgumentHistory db)"
    unfolding consolidateArgumentHistory_def
    by (induction db) (auto simp: consolidateHook_type consolidateHook_tracked(1,2))
  show "map (\<lambda>(k, h). (k, type h, set (concat (versionSets h)))) (consolidateArgumentHistory db)
     = map (\<lambda>(k, h). (k, type h, set (concat (versionSets h)))) db"
  proof -
    have pt: "(case (case x of (k, hookData) \<Rightarrow> (k, consolidateHook hookData)) of
                 (k, h) \<Rightarrow> (k, type h, set (concat (versionSets h))))
            = (case x of (k, h) \<Rightarrow> (k, type h, set (concat (versionSets h))))" for x
      by (cases x) (simp only: prod.case consolidateHook_type consolidateHook_versions)
    show ?thesis
      unfolding consolidateArgumentHistory_def map_map comp_def pt ..
  qed
qed

theorem consolidated_versions_disjoint_witness:
  "versionSetsByHook (consolidateArgumentHistory (mergeResults signatureReturns))
     = [(ValueTransformer, [[''v1.0.0''], [''v3.0.0'', ''v2.0.0'']])]
   \<and> pairwiseDisjoint [[''v1.0.0''], [''v3.0.0'', ''v2.0.0'']]"
proof -
  let ?db = "consolidateArgumentHistory (mergeResults signatureReturns)"
  have v: "versionSetsByHook ?db = [(ValueTransformer, [[''v1.0.0''], [''v3.0.0'', ''v2.0.0'']])]"
    by code_simp
  from consolidated_versions_disjoint[of "mergeResults signatureReturns"]
  have "list_all (\<lambda>(k, h). (type h = ValueTransformer \<or> type h = AppEventTrigger) \<longrightarrow>
        pairwiseDisjoint (versionSets h) \<and> list_all distinct (versionSets h)) ?db"
    by (rule conjunct1)
  then have "list_all (\<lambda>(t, vs). (t = ValueTransformer \<or> t = AppEventTrigger) \<longrightarrow>
        pairwiseDisjoint vs \<and> list_all distinct vs) (versionSetsByHook ?db)"
    unfolding versionSetsByHook_def list_all_iff by auto
  then have "pairwiseDisjoint [[''v1.0.0''], [''v3.0.0'', ''v2.0.0'']]"
    unfolding v by simp
  with v show ?thesis by (intro conjI)
qed

section \<open>Normalizing map literals\<close>

























section \<open>The scheduler and failed workers\<close>

text \<open>
  Whatever the number of workers and the order in which they report: when the failure of
  one version is caught in \<^verbatim>\<open>processVersion\<close>, the promise is never resolved.
\<close>

lemma schedInvD:
  assumes "schedInv vs out st"
  shows "versionIndex st \<le> length vs" "distinct (workers st)"
    "set (workers st) \<subseteq> {..<versionIndex st}"
    "resolved st \<noteq> None \<longrightarrow> length vs \<le> completed st"
    "completed st = card (countedWorkers out st)"
  using assms unfolding schedInv_def by blast+

lemma schedInv_createWorker:
  assumes "schedInv vs out st"
  shows "schedInv vs out (createWorker vs st)"
proof (cases "versionIndex st \<ge> length vs")
  case True
  with assms show ?thesis by (simp add: createWorker_def)
next
  case False
  from assms have sub: "set (workers st) \<subseteq> {..<versionIndex st}" by (simp add: schedInv_def)
  then have notin: "versionIndex st \<notin> set (workers st)" by auto
  have c: "countedWorkers out (st\<lparr>versionIndex := versionIndex st + 1,
              workers := workers st @ [versionIndex st]\<rparr>) = countedWorkers out st"
    unfolding countedWorkers_def using sub by (auto simp: less_Suc_eq)
  have eq: "createWorker vs st = st\<lparr>versionIndex := versionIndex st + 1,
              workers := workers st @ [versionIndex st]\<rparr>"
    using False by (simp add: createWorker_def)
  show ?thesis
    unfolding eq schedInv_def c using assms False notin sub
    by (auto simp: schedInv_def less_Suc_eq)
qed

lemma schedInv_start: "schedInv vs out (startWorkers vs maxWorkers)"
proof -
  have init: "schedInv vs out \<lparr>results = [], completed = 0, versionIndex = 0, workers = [],
                               resolved = None\<rparr>"
    by (simp add: schedInv_def countedWorkers_def)
  have "schedInv vs out ((createWorker vs ^^ n) st)" if "schedInv vs out st" for n st
    using that by (induction n) (simp_all add: schedInv_createWorker)
  from this[OF init] show ?thesis by (simp add: startWorkers_def)
qed

lemma schedInv_finish:
  assumes inv: "versionIndex st \<le> length vs" "distinct (workers st)"
      "set (workers st) \<subseteq> {..<versionIndex st}"
      "resolved st \<noteq> None \<longrightarrow> length vs \<le> completed st"
    and w: "w \<in> set (workers st)"
    and c: "completed st = card (countedWorkers out (st\<lparr>workers := remove1 w (workers st)\<rparr>))"
  shows "schedInv vs out (finishWorker vs w st)"
proof -
  let ?st1 = "st\<lparr>workers := spliceWorker w (workers st)\<rparr>"
  have sp: "spliceWorker w (workers st) = remove1 w (workers st)"
    using w by (simp add: spliceWorker_def)
  have inv1: "schedInv vs out ?st1"
    unfolding schedInv_def sp using inv c by (auto simp: countedWorkers_def)
  show ?thesis
  proof (cases "completed ?st1 = length vs")
    case True
    then have "finishWorker vs w st =
        ?st1\<lparr>resolved := (case resolved ?st1 of None \<Rightarrow> Some (results ?st1) | Some r \<Rightarrow> Some r)\<rparr>"
      by (simp add: finishWorker_def Let_def)
    moreover have "schedInv vs out
        (?st1\<lparr>resolved := (case resolved ?st1 of None \<Rightarrow> Some (results ?st1) | Some r \<Rightarrow> Some r)\<rparr>)"
      using inv1 True by (simp add: schedInv_def countedWorkers_def)
    ultimately show ?thesis by simp
  next
    case False
    then have "finishWorker vs w st = createWorker vs ?st1"
      by (simp add: finishWorker_def Let_def)
    with schedInv_createWorker[OF inv1] show ?thesis by simp
  qed
qed

lemma counted_remove:
  assumes "distinct (workers st)" "set (workers st) \<subseteq> {..<versionIndex st}" "w \<in> set (workers st)"
  shows "countedWorkers out (st\<lparr>workers := remove1 w (workers st)\<rparr>)
           = (if out w \<noteq> Caught then insert w (countedWorkers out st) else countedWorkers out st)"
    and "w \<notin> countedWorkers out st" and "finite (countedWorkers out st)"
  using assms unfolding countedWorkers_def by auto

lemma schedInv_deliver:
  assumes "schedInv vs out st"
  shows "schedInv vs out (deliver vs out w st)"
proof (cases "w \<in> set (workers st)")
  case False
  with assms show ?thesis by (simp add: deliver_def)
next
  case True
  note inv = schedInvD(1-4)[OF assms] and c = schedInvD(5)[OF assms]
  note cr = counted_remove[OF inv(2,3) True, of out]
  have d: "deliver vs out w st = handleEvent vs w (eventOf (out w)) st"
    using True by (simp add: deliver_def)
  show ?thesis
  proof (cases "out w")
    case (Extracted hs)
    let ?st' = "st\<lparr>results := results st @ [hs], completed := completed st + 1\<rparr>"
    have "schedInv vs out (finishWorker vs w ?st')"
      by (rule schedInv_finish) (use inv True c cr Extracted in \<open>auto simp: countedWorkers_def\<close>)
    then show ?thesis unfolding d Extracted by simp
  next
    case Caught
    have "schedInv vs out (finishWorker vs w st)"
      by (rule schedInv_finish) (use inv True c cr Caught in \<open>auto simp: countedWorkers_def\<close>)
    then show ?thesis unfolding d Caught by simp
  next
    case Uncaught
    let ?st' = "st\<lparr>completed := completed st + 1\<rparr>"
    have "schedInv vs out (finishWorker vs w ?st')"
      by (rule schedInv_finish) (use inv True c cr Uncaught in \<open>auto simp: countedWorkers_def\<close>)
    then show ?thesis unfolding d Uncaught by simp
  qed
qed

lemma schedInv_run: "schedInv vs out (processVersionsInParallel vs maxWorkers out order)"
proof -
  have "schedInv vs out (fold (deliver vs out) order st)" if "schedInv vs out st" for st
    using that by (induction order arbitrary: st) (simp_all add: schedInv_deliver)
  from this[OF schedInv_start] show ?thesis by (simp add: processVersionsInParallel_def)
qed

lemma caught_failure_blocks_every_schedule:
  assumes "w0 < length vs" "out w0 = Caught"
  shows "resolved (processVersionsInParallel vs maxWorkers out order) = None"
proof -
  let ?st = "processVersionsInParallel vs maxWorkers out order"
  note vi = schedInvD(1)[OF schedInv_run[of vs out maxWorkers order]]
    and c = schedInvD(5)[OF schedInv_run[of vs out maxWorkers order]]
    and r = schedInvD(4)[OF schedInv_run[of vs out maxWorkers order]]
  have "countedWorkers out ?st \<subseteq> {..<length vs} - {w0}"
    unfolding countedWorkers_def using vi assms(2) by auto
  then have "card (countedWorkers out ?st) \<le> card ({..<length vs} - {w0})"
    by (intro card_mono) simp_all
  also have "\<dots> < length vs" using assms(1) by simp
  finally have "completed ?st < length vs" unfolding c .
  with r show ?thesis by auto
qed

text \<open>
  Claim C9 (the code departs from it). A failure caught in \<^verbatim>\<open>processVersion\<close> is posted
  as the bare array \<^verbatim>\<open>[]\<close>, which the \<^verbatim>\<open>message\<close> handler does not count: with two
  versions of which the first fails this way, in either order of arrival all workers have
  ended, \<open>completed\<close> is 1 and the promise is not resolved. A failure that reaches the
  \<^verbatim>\<open>error\<close> handler is counted, and the promise resolves. The lemma above shows the
  first for every schedule.
\<close>

theorem caught_failure_never_resolves:
  "processVersionsInParallel [''v1.0.0'', ''v1.1.0''] 2
       (\<lambda>w. if w = 0 then Caught else Extracted []) [0, 1]
     = \<lparr>results = [[]], completed = 1, versionIndex = 2, workers = [], resolved = None\<rparr>
   \<and> processVersionsInParallel [''v1.0.0'', ''v1.1.0''] 2
       (\<lambda>w. if w = 0 then Caught else Extracted []) [1, 0]
     = \<lparr>results = [[]], completed = 1, versionIndex = 2, workers = [], resolved = None\<rparr>
   \<and> processVersionsInParallel [''v1.0.0'', ''v1.1.0''] 2
       (\<lambda>w. if w = 0 then Uncaught else Extracted []) [0, 1]
     = \<lparr>results = [[]], completed = 2, versionIndex = 2, workers = [], resolved = Some [[]]\<rparr>"
  by code_simp

section \<open>Report statistics\<close>



lemma generateReport_hooks: "hooks (generateReport db) = map (\<lambda>(k, hook). reportHookOf hook) db"
  by (simp add: generateReport_def Let_def)





end
